theory Spec2Isabelle
  imports Main "HOL-Library.Word" "HOL-Library.Multiset"
begin

section \<open>secure_counter: data model\<close>

text \<open>
  The embedding follows \<^verbatim>\<open>apps/secure_counter/src/main.c\<close>. Machine integers are
  words: \<^verbatim>\<open>uint32_t\<close> is \<open>32 word\<close>, \<^verbatim>\<open>int64_t\<close> is \<open>64 word\<close> read with
  \<open>sint\<close>. \<^verbatim>\<open>atomic_t\<close> is Zephyr's \<^verbatim>\<open>long\<close>; on the board the README builds for
  (\<^verbatim>\<open>qemu_x86\<close>, ILP32) it has 32 bits, and every read of it in the program goes through
  a cast to \<^verbatim>\<open>uint32_t\<close>.
\<close>

type_synonym u32 = "32 word"
type_synonym s64 = "64 word"
type_synonym atomic_val = "32 word"

record msg_t =
  seq :: u32
  ts_ms :: s64

text \<open>\<^verbatim>\<open>K_MSGQ_DEFINE(name, msg_size, max_msgs, align)\<close>: a ring buffer of at most
  \<open>max_msgs\<close> messages, oldest first.\<close>

record k_msgq =
  max_msgs :: nat
  msgs :: "msg_t list"

text \<open>The kernel objects of the program that a user-mode thread could name.\<close>

datatype kobj = Counter_q | Secret_q

text \<open>
  The threads of the running image. \<open>Consumer_tid\<close> is the one thread that \<^verbatim>\<open>main\<close>
  creates. The main thread, the system work queue (which runs \<^verbatim>\<open>tick_work\<close>) and the
  shell thread (which calls the handlers registered with \<^verbatim>\<open>SHELL_CMD\<close>) are started by
  the kernel and its subsystems in supervisor mode; \<^verbatim>\<open>main.c\<close> changes the mode of none
  of them.
\<close>

datatype thread_id = Main_thread | Sysworkq_thread | Shell_thread | Consumer_tid

datatype thread_status = Not_created | Supervisor | User | Terminated

record k_timer =
  initialised :: bool
  running :: bool
  duration_ms :: u32
  timer_period_ms :: u32

datatype log_entry =
    Inf_starting
  | Wrn_dropped u32
  | Inf_user_got u32 s64
  | Inf_main_alive u32 u32

datatype shell_msg =
    Print_status u32 u32 nat
  | Error_usage
  | Error_invalid
  | Print_period_set u32
  | Print_attempting
  | Print_unexpected int

record sys_state =
  counter_q :: k_msgq
  secret_q :: k_msgq
  seq_cnt :: atomic_val
  period_ms :: u32
  tick_timer :: k_timer
  work_pending :: bool
  threads :: "thread_id \<Rightarrow> thread_status"
  public_objs :: "kobj set"
  thread_perms :: "(thread_id \<times> kobj) set"
  log :: "log_entry list"
  shell_out :: "shell_msg list"

definition EINVAL :: int where
  "EINVAL = 22"

definition ENOMSG :: int where
  "ENOMSG = 35"

text \<open>The image before \<^verbatim>\<open>main\<close> runs: the static initialisers of the file.\<close>

definition boot :: sys_state where
  "boot = \<lparr> counter_q = \<lparr> max_msgs = 16, msgs = [] \<rparr>,
            secret_q = \<lparr> max_msgs = 1, msgs = [] \<rparr>,
            seq_cnt = 0,
            period_ms = 100,
            tick_timer = \<lparr> initialised = False, running = False,
                           duration_ms = 0, timer_period_ms = 0 \<rparr>,
            work_pending = False,
            threads = (\<lambda>t. if t = Consumer_tid then Not_created else Supervisor),
            public_objs = {},
            thread_perms = {},
            log = [],
            shell_out = [] \<rparr>"

section \<open>Kernel services used by the program\<close>

text \<open>
  The kernel is not part of the repository; each service is modelled by its documented
  contract, and by sections 4.3 and 4.5 of the specification for the channel and the
  access control monitor.
\<close>

definition get_q :: "kobj \<Rightarrow> sys_state \<Rightarrow> k_msgq" where
  "get_q q s = (case q of Counter_q \<Rightarrow> counter_q s | Secret_q \<Rightarrow> secret_q s)"

definition set_q :: "kobj \<Rightarrow> k_msgq \<Rightarrow> sys_state \<Rightarrow> sys_state" where
  "set_q q v s = (case q of Counter_q \<Rightarrow> s\<lparr>counter_q := v\<rparr> | Secret_q \<Rightarrow> s\<lparr>secret_q := v\<rparr>)"

text \<open>The objects a thread holds a permission for: its own grants and the public
  objects (\<^verbatim>\<open>k_object_access_all_grant\<close>).\<close>

definition has_grant :: "sys_state \<Rightarrow> thread_id \<Rightarrow> kobj \<Rightarrow> bool" where
  "has_grant s t q = (q \<in> public_objs s \<or> (t, q) \<in> thread_perms s)"

definition grant_set :: "sys_state \<Rightarrow> thread_id \<Rightarrow> kobj set" where
  "grant_set s t = Set.filter (has_grant s t) {Counter_q, Secret_q}"

text \<open>
  The access control monitor: a system call made by a user-mode thread is checked
  against the thread's permissions on the object; a call made in supervisor mode is a
  direct function call and is not checked.
\<close>

definition may_access :: "sys_state \<Rightarrow> thread_id \<Rightarrow> kobj \<Rightarrow> bool" where
  "may_access s t q =
     (threads s t = Supervisor \<or> (threads s t = User \<and> has_grant s t q))"

text \<open>The outcome of code run by a thread: it returns a value, or the kernel kills
  the thread in the middle of it (a fatal permission fault) and nothing is returned.\<close>

datatype 'a outcome = Normal 'a sys_state | Fatal sys_state

definition k_oops :: "thread_id \<Rightarrow> sys_state \<Rightarrow> sys_state" where
  "k_oops t s = s\<lparr>threads := (threads s)(t := Terminated)\<rparr>"

definition k_object_access_all_grant :: "kobj \<Rightarrow> sys_state \<Rightarrow> sys_state" where
  "k_object_access_all_grant q s = s\<lparr>public_objs := insert q (public_objs s)\<rparr>"

text \<open>\<^verbatim>\<open>k_thread_create\<close> with \<^verbatim>\<open>K_USER\<close> and without \<^verbatim>\<open>K_INHERIT_PERMS\<close>: the new
  thread runs in user mode and inherits no permission of its creator.\<close>

definition k_thread_create_user :: "thread_id \<Rightarrow> sys_state \<Rightarrow> sys_state" where
  "k_thread_create_user t s = s\<lparr>threads := (threads s)(t := User)\<rparr>"

text \<open>\<^verbatim>\<open>k_msgq_put(q, &m, K_NO_WAIT)\<close>: appends when there is room and returns 0;
  returns \<open>-ENOMSG\<close> at once when the queue is full, leaving it as it is.\<close>

definition k_msgq_put_no_wait :: "thread_id \<Rightarrow> kobj \<Rightarrow> msg_t \<Rightarrow> sys_state \<Rightarrow> int outcome" where
  "k_msgq_put_no_wait t q m s =
     (if \<not> may_access s t q then Fatal (k_oops t s)
      else let mq = get_q q s in
        if length (msgs mq) < max_msgs mq
        then Normal 0 (set_q q (mq\<lparr>msgs := msgs mq @ [m]\<rparr>) s)
        else Normal (- ENOMSG) s)"

text \<open>\<^verbatim>\<open>k_msgq_get(q, &m, K_NO_WAIT)\<close>: removes the oldest message and returns 0;
  returns \<open>-ENOMSG\<close> at once when the queue is empty. The message read is \<open>None\<close> when
  the local \<^verbatim>\<open>m\<close> is left unwritten.\<close>

definition k_msgq_get_no_wait ::
  "thread_id \<Rightarrow> kobj \<Rightarrow> sys_state \<Rightarrow> (int \<times> msg_t option) outcome" where
  "k_msgq_get_no_wait t q s =
     (if \<not> may_access s t q then Fatal (k_oops t s)
      else let mq = get_q q s in
        case msgs mq of
          [] \<Rightarrow> Normal (- ENOMSG, None) s
        | m # rest \<Rightarrow> Normal (0, Some m) (set_q q (mq\<lparr>msgs := rest\<rparr>) s))"

text \<open>\<^verbatim>\<open>k_msgq_get(q, &m, K_FOREVER)\<close>: as above, but on an empty queue the caller
  stays blocked inside the call; \<open>None\<close> is the call that has not returned yet.\<close>

definition k_msgq_get_forever ::
  "thread_id \<Rightarrow> kobj \<Rightarrow> sys_state \<Rightarrow> (int \<times> msg_t) outcome option" where
  "k_msgq_get_forever t q s =
     (if \<not> may_access s t q then Some (Fatal (k_oops t s))
      else let mq = get_q q s in
        case msgs mq of
          [] \<Rightarrow> None
        | m # rest \<Rightarrow> Some (Normal (0, m) (set_q q (mq\<lparr>msgs := rest\<rparr>) s)))"

definition k_timer_init :: "k_timer \<Rightarrow> k_timer" where
  "k_timer_init t = t\<lparr>initialised := True, running := False\<rparr>"

definition k_timer_stop :: "k_timer \<Rightarrow> k_timer" where
  "k_timer_stop t = t\<lparr>running := False\<rparr>"

definition k_timer_start :: "u32 \<Rightarrow> u32 \<Rightarrow> k_timer \<Rightarrow> k_timer" where
  "k_timer_start d p t = t\<lparr>running := True, duration_ms := d, timer_period_ms := p\<rparr>"

text \<open>\<^verbatim>\<open>k_work_submit\<close>: the item is queued unless it is queued already.\<close>

definition k_work_submit :: "sys_state \<Rightarrow> sys_state" where
  "k_work_submit s = s\<lparr>work_pending := True\<rparr>"

definition LOG :: "log_entry \<Rightarrow> sys_state \<Rightarrow> sys_state" where
  "LOG e s = s\<lparr>log := log s @ [e]\<rparr>"

definition shell_print :: "shell_msg \<Rightarrow> sys_state \<Rightarrow> sys_state" where
  "shell_print m s = s\<lparr>shell_out := shell_out s @ [m]\<rparr>"

subsection \<open>strtol\<close>

text \<open>
  ISO C \<^verbatim>\<open>strtol(nptr, &end, 10)\<close> with a 32-bit \<^verbatim>\<open>long\<close>: white space is skipped, then
  an optional sign, then the longest run of decimal digits. Without a digit no
  conversion is made: the value is 0 and \<^verbatim>\<open>end\<close> is \<^verbatim>\<open>nptr\<close>. A value out of the range
  of \<^verbatim>\<open>long\<close> is clamped to \<^verbatim>\<open>LONG_MIN\<close> or \<^verbatim>\<open>LONG_MAX\<close>. The result is the value and the
  string \<^verbatim>\<open>end\<close> points at. A \<open>string\<close> holds the bytes before the terminating NUL.
\<close>

definition isspace :: "char \<Rightarrow> bool" where
  "isspace c = (c \<in> set [CHR '' '', CHR 0x09, CHR 0x0A, CHR 0x0B, CHR 0x0C, CHR 0x0D])"

definition isdigit :: "char \<Rightarrow> bool" where
  "isdigit c = (48 \<le> (of_char c :: nat) \<and> (of_char c :: nat) \<le> 57)"

definition digit_val :: "char \<Rightarrow> int" where
  "digit_val c = int (of_char c) - 48"

fun digits_value :: "int \<Rightarrow> string \<Rightarrow> int" where
  "digits_value acc [] = acc"
| "digits_value acc (c # cs) = digits_value (acc * 10 + digit_val c) cs"

definition LONG_MAX :: int where
  "LONG_MAX = 2147483647"

definition LONG_MIN :: int where
  "LONG_MIN = - 2147483648"

definition clamp_long :: "int \<Rightarrow> int" where
  "clamp_long v = (if v < LONG_MIN then LONG_MIN else if LONG_MAX < v then LONG_MAX else v)"

definition strip_sign :: "string \<Rightarrow> bool \<times> string" where
  "strip_sign s =
     (case s of
        [] \<Rightarrow> (False, [])
      | c # r \<Rightarrow> if c = CHR ''-'' then (True, r)
                 else if c = CHR ''+'' then (False, r)
                 else (False, s))"

definition strtol :: "string \<Rightarrow> int \<times> string" where
  "strtol nptr =
     (let (neg, body) = strip_sign (dropWhile isspace nptr);
          ds = takeWhile isdigit body
      in if ds = [] then (0, nptr)
         else (clamp_long (if neg then - digits_value 0 ds else digits_value 0 ds),
               dropWhile isdigit body))"

section \<open>The program\<close>

text \<open>\<^verbatim>\<open>tick_timer_handler\<close>: the timer's expiry function, run from the interrupt.\<close>

definition tick_timer_handler :: "sys_state \<Rightarrow> sys_state" where
  "tick_timer_handler s = k_work_submit s"

text \<open>
  \<^verbatim>\<open>tick_work_handler\<close>, run by the system work queue. \<open>now\<close> is what \<^verbatim>\<open>k_uptime_get()\<close>
  returns in this call. \<^verbatim>\<open>atomic_inc\<close> returns the value before the increment. The
  work queue thread is in supervisor mode, so \<^verbatim>\<open>k_msgq_put\<close> cannot fault; the branch is
  kept as the outcome type asks for it.
\<close>

definition tick_msg :: "s64 \<Rightarrow> sys_state \<Rightarrow> msg_t" where
  "tick_msg now s = \<lparr> seq = ucast (seq_cnt s), ts_ms = now \<rparr>"

definition tick_work_handler :: "s64 \<Rightarrow> sys_state \<Rightarrow> sys_state" where
  "tick_work_handler now s =
     (let m = tick_msg now s;
          s1 = s\<lparr>seq_cnt := seq_cnt s + 1\<rparr>
      in case k_msgq_put_no_wait Sysworkq_thread Counter_q m s1 of
           Normal rc s2 \<Rightarrow> if rc \<noteq> 0 then LOG (Wrn_dropped (seq m)) s2 else s2
         | Fatal s2 \<Rightarrow> s2)"

text \<open>One turn of the \<^verbatim>\<open>while (1)\<close> loop of \<^verbatim>\<open>consumer_thread\<close>. With an empty queue
  the thread stays blocked in \<^verbatim>\<open>k_msgq_get\<close> and the state does not change.\<close>

definition consumer_thread_iteration :: "sys_state \<Rightarrow> sys_state" where
  "consumer_thread_iteration s =
     (case k_msgq_get_forever Consumer_tid Counter_q s of
        None \<Rightarrow> s
      | Some (Fatal s1) \<Rightarrow> s1
      | Some (Normal (rc, m) s1) \<Rightarrow>
          if rc = 0 then LOG (Inf_user_got (seq m) (ts_ms m)) s1 else s1)"

text \<open>\<^verbatim>\<open>cmd_counter_get\<close>. \<open>unused\<close> is what \<^verbatim>\<open>k_thread_stack_space_get\<close> stores.\<close>

definition cmd_counter_get :: "nat \<Rightarrow> sys_state \<Rightarrow> int \<times> sys_state" where
  "cmd_counter_get unused s =
     (0, shell_print (Print_status (period_ms s) (ucast (seq_cnt s)) unused) s)"

text \<open>\<^verbatim>\<open>cmd_counter_set\<close>. \<open>argv\<close> is the argument vector, \<open>argc\<close> its length; the shell
  never passes a null \<^verbatim>\<open>argv[1]\<close> when \<open>argc\<close> is 2, and \<^verbatim>\<open>strtol\<close> always sets \<^verbatim>\<open>end\<close>.\<close>

definition cmd_counter_set :: "string list \<Rightarrow> sys_state \<Rightarrow> int \<times> sys_state" where
  "cmd_counter_set argv s =
     (if length argv \<noteq> 2 then (- EINVAL, shell_print Error_usage s)
      else let (v, end) = strtol (argv ! 1) in
        if argv ! 1 = [] \<or> end \<noteq> [] \<or> v < 10 \<or> v > 10000
        then (- EINVAL, shell_print Error_invalid s)
        else let s1 = s\<lparr>period_ms := word_of_int v\<rparr>;
                 s2 = s1\<lparr>tick_timer := k_timer_stop (tick_timer s1)\<rparr>;
                 s3 = s2\<lparr>tick_timer :=
                          k_timer_start (period_ms s2) (period_ms s2) (tick_timer s2)\<rparr>
             in (0, shell_print (Print_period_set (period_ms s3)) s3))"

text \<open>\<^verbatim>\<open>cmd_attack_try_secret\<close>, run by thread \<open>caller\<close>. When the kernel kills the caller
  inside \<^verbatim>\<open>k_msgq_get\<close>, the two statements after the call are not run.\<close>

definition cmd_attack_try_secret :: "thread_id \<Rightarrow> sys_state \<Rightarrow> int outcome" where
  "cmd_attack_try_secret caller s =
     (let s1 = shell_print Print_attempting s in
      case k_msgq_get_no_wait caller Secret_q s1 of
        Fatal s2 \<Rightarrow> Fatal s2
      | Normal (rc, m) s2 \<Rightarrow> Normal 0 (shell_print (Print_unexpected rc) s2))"

text \<open>\<^verbatim>\<open>main\<close> up to its final loop. \<^verbatim>\<open>k_thread_name_set\<close> changes nothing that is
  modelled.\<close>

definition main_init :: "sys_state \<Rightarrow> sys_state" where
  "main_init s =
     (let s1 = LOG Inf_starting s;
          s2 = k_object_access_all_grant Counter_q s1;
          s3 = k_thread_create_user Consumer_tid s2;
          s4 = s3\<lparr>tick_timer := k_timer_init (tick_timer s3)\<rparr>
      in s4\<lparr>tick_timer := k_timer_start (period_ms s4) (period_ms s4) (tick_timer s4)\<rparr>)"

text \<open>One turn of the final loop of \<^verbatim>\<open>main\<close>, after the sleep.\<close>

definition main_loop_iteration :: "sys_state \<Rightarrow> sys_state" where
  "main_loop_iteration s = LOG (Inf_main_alive (ucast (seq_cnt s)) (period_ms s)) s"

section \<open>Runs\<close>

text \<open>
  The threads interleave at the granularity of the functions above: the message queue
  and the atomic counter are the only data two threads touch, and each call on them is
  atomic. An event that cannot happen in a state (the timer is stopped, no work is
  queued, the consumer is blocked or dead) leaves the state as it is. The shell handlers
  run on the shell thread.
\<close>

datatype event =
    Timer_expiry
  | Work_run s64
  | Consumer_turn
  | Main_turn
  | Shell_get nat
  | Shell_set "string list"
  | Shell_attack

definition outcome_state :: "'a outcome \<Rightarrow> sys_state" where
  "outcome_state r = (case r of Normal v s \<Rightarrow> s | Fatal s \<Rightarrow> s)"

definition step :: "event \<Rightarrow> sys_state \<Rightarrow> sys_state" where
  "step e s =
     (case e of
        Timer_expiry \<Rightarrow> if running (tick_timer s) then tick_timer_handler s else s
      | Work_run now \<Rightarrow>
          if work_pending s then tick_work_handler now (s\<lparr>work_pending := False\<rparr>) else s
      | Consumer_turn \<Rightarrow> if threads s Consumer_tid = User then consumer_thread_iteration s else s
      | Main_turn \<Rightarrow> main_loop_iteration s
      | Shell_get unused \<Rightarrow> snd (cmd_counter_get unused s)
      | Shell_set argv \<Rightarrow> snd (cmd_counter_set argv s)
      | Shell_attack \<Rightarrow> outcome_state (cmd_attack_try_secret Shell_thread s))"

fun exec :: "event list \<Rightarrow> sys_state \<Rightarrow> sys_state" where
  "exec [] s = s"
| "exec (e # es) s = exec es (step e s)"

definition started :: sys_state where
  "started = main_init boot"

text \<open>The messages the consumer has taken out of the channel, oldest first: it logs
  each one.\<close>

fun delivered :: "log_entry list \<Rightarrow> msg_t list" where
  "delivered [] = []"
| "delivered (Inf_user_got n t # es) = \<lparr> seq = n, ts_ms = t \<rparr> # delivered es"
| "delivered (e # es) = delivered es"

section \<open>Definitions used to state the properties\<close>

text \<open>What holds in every state the started system can reach: the modes of the
  threads, the grants, the shape of the two queues and the running timer.\<close>

definition sys_inv :: "sys_state \<Rightarrow> bool" where
  "sys_inv s =
     (threads s Main_thread = Supervisor \<and> threads s Sysworkq_thread = Supervisor \<and>
      threads s Shell_thread = Supervisor \<and> threads s Consumer_tid = User \<and>
      public_objs s = {Counter_q} \<and> thread_perms s = {} \<and>
      max_msgs (counter_q s) = 16 \<and> length (msgs (counter_q s)) \<le> 16 \<and>
      secret_q s = \<lparr> max_msgs = 1, msgs = [] \<rparr> \<and>
      initialised (tick_timer s) \<and> running (tick_timer s))"

definition all_threads :: "thread_id list" where
  "all_threads = [Main_thread, Sysworkq_thread, Shell_thread, Consumer_tid]"

text \<open>The threads whose call on a queue passes the access control monitor.\<close>

definition accessors :: "sys_state \<Rightarrow> kobj \<Rightarrow> thread_id list" where
  "accessors s q = filter (\<lambda>t. may_access s t q) all_threads"

text \<open>The number of production attempts of a run: the calls of \<^verbatim>\<open>tick_work_handler\<close>.\<close>

fun work_runs :: "event list \<Rightarrow> sys_state \<Rightarrow> nat" where
  "work_runs [] s = 0"
| "work_runs (Work_run now # es) s =
     (if work_pending s then 1 else 0) + work_runs es (step (Work_run now) s)"
| "work_runs (e # es) s = work_runs es (step e s)"

text \<open>Sixteen timer periods with a consumer that does not get to run: the authorized
  channel ends full.\<close>

definition full_run :: "event list" where
  "full_run = concat (replicate 16 [Timer_expiry, Work_run 7])"

text \<open>The messages that have entered the authorized channel, in the order they entered
  it: those the consumer has taken out, followed by those still queued.\<close>

definition chan_trace :: "sys_state \<Rightarrow> msg_t list" where
  "chan_trace s = delivered (log s) @ msgs (counter_q s)"

text \<open>The message an event puts into the authorized channel, if any.\<close>

definition enqueued :: "event \<Rightarrow> sys_state \<Rightarrow> msg_t list" where
  "enqueued e s =
     (case e of
        Work_run now \<Rightarrow>
          if work_pending s \<and> length (msgs (counter_q s)) < max_msgs (counter_q s)
          then [tick_msg now s] else []
      | _ \<Rightarrow> [])"

text \<open>
  What the state records of the production attempts made so far: the sequence numbers
  named in the drop warnings of the log and, with them, the sequence numbers of all the
  messages that entered the authorized channel. Every attempt ends in one or the other.
\<close>

fun dropped_seqs :: "log_entry list \<Rightarrow> u32 list" where
  "dropped_seqs [] = []"
| "dropped_seqs (Wrn_dropped n # es) = n # dropped_seqs es"
| "dropped_seqs (e # es) = dropped_seqs es"

definition attempted_seqs :: "sys_state \<Rightarrow> u32 multiset" where
  "attempted_seqs s = mset (map seq (chan_trace s)) + mset (dropped_seqs (log s))"

text \<open>The order of \<^verbatim>\<open>int64_t\<close> timestamps, and the readings of \<^verbatim>\<open>k_uptime_get\<close> along
  a run.\<close>

definition ts_le :: "s64 \<Rightarrow> s64 \<Rightarrow> bool" where
  "ts_le a b = (sint a \<le> sint b)"

fun readings :: "event list \<Rightarrow> s64 list" where
  "readings [] = []"
| "readings (Work_run now # es) = now # readings es"
| "readings (e # es) = readings es"

text \<open>What the sequence numbers satisfy after \<open>A\<close> production attempts, as long as the
  32-bit counter has not wrapped.\<close>

definition seq_inv :: "nat \<Rightarrow> sys_state \<Rightarrow> bool" where
  "seq_inv A s =
     (sys_inv s \<and> seq_cnt s = of_nat A \<and> A \<le> 2 ^ 32 \<and>
      sorted_wrt (<) (map seq (chan_trace s)) \<and>
      list_all (\<lambda>m. unat (seq m) < A) (chan_trace s))"

text \<open>A consumer that keeps up: each timer period is followed by the production and
  by one turn of the consumer. \<open>wrap_run\<close> is \<open>2^32 + 1\<close> such periods (497 days at the
  shortest period of 10 ms).\<close>

definition cycles :: "nat \<Rightarrow> event list" where
  "cycles n = concat (replicate n [Timer_expiry, Work_run 0, Consumer_turn])"

definition wrap_run :: "event list" where
  "wrap_run = cycles (2 ^ 32 + 1)"

definition idle :: "sys_state \<Rightarrow> bool" where
  "idle s = (sys_inv s \<and> msgs (counter_q s) = [] \<and> \<not> work_pending s)"

definition sample_run :: "event list" where
  "sample_run = [Timer_expiry, Work_run 100, Timer_expiry, Work_run 200, Consumer_turn,
                 Shell_get 512, Timer_expiry, Work_run 300, Consumer_turn, Consumer_turn]"

subsection \<open>Period arguments\<close>

text \<open>
  The decimal numeral of an integer, as an operator types it, and what the
  specification calls a well-formed integer, read as C reads a decimal integer: optional
  white space, an optional sign, then one or more decimal digits and nothing after them.
  \<open>integer_value\<close> is the number such a string denotes, by the place values of its
  digits.
\<close>

definition digit_char :: "nat \<Rightarrow> char" where
  "digit_char d = char_of (48 + d)"

fun decimal :: "nat \<Rightarrow> string" where
  "decimal n = (if n < 10 then [digit_char n] else decimal (n div 10) @ [digit_char (n mod 10)])"

definition int_to_string :: "int \<Rightarrow> string" where
  "int_to_string v = (if v < 0 then CHR ''-'' # decimal (nat (- v)) else decimal (nat v))"

fun decimal_value :: "string \<Rightarrow> int" where
  "decimal_value [] = 0"
| "decimal_value (c # cs) = digit_val c * 10 ^ length cs + decimal_value cs"

definition unsigned_decimal :: "string \<Rightarrow> bool" where
  "unsigned_decimal cs = (cs \<noteq> [] \<and> list_all isdigit cs)"

fun well_formed_integer :: "string \<Rightarrow> bool" where
  "well_formed_integer [] = False"
| "well_formed_integer (c # cs) =
     (if isspace c then well_formed_integer cs
      else if c = CHR ''-'' \<or> c = CHR ''+'' then unsigned_decimal cs
      else unsigned_decimal (c # cs))"

fun integer_value :: "string \<Rightarrow> int" where
  "integer_value [] = 0"
| "integer_value (c # cs) =
     (if isspace c then integer_value cs
      else if c = CHR ''-'' then - decimal_value cs
      else if c = CHR ''+'' then decimal_value cs
      else decimal_value (c # cs))"

declare decimal.simps [simp del]

section \<open>Basic facts\<close>

lemma tick_supervisor:
  "threads s Sysworkq_thread = Supervisor \<Longrightarrow>
   tick_work_handler now s =
     (if length (msgs (counter_q s)) < max_msgs (counter_q s)
      then s\<lparr>seq_cnt := seq_cnt s + 1,
             counter_q := (counter_q s)\<lparr>msgs := msgs (counter_q s) @ [tick_msg now s]\<rparr>\<rparr>
      else s\<lparr>seq_cnt := seq_cnt s + 1, log := log s @ [Wrn_dropped (ucast (seq_cnt s))]\<rparr>)"
  by (simp add: tick_work_handler_def k_msgq_put_no_wait_def may_access_def LOG_def
      set_q_def get_q_def Let_def ENOMSG_def tick_msg_def)

lemma consumer_granted:
  "threads s Consumer_tid = User \<Longrightarrow> Counter_q \<in> public_objs s \<Longrightarrow>
   consumer_thread_iteration s =
     (case msgs (counter_q s) of
        [] \<Rightarrow> s
      | m # rest \<Rightarrow> s\<lparr>counter_q := (counter_q s)\<lparr>msgs := rest\<rparr>,
                       log := log s @ [Inf_user_got (seq m) (ts_ms m)]\<rparr>)"
  by (simp add: consumer_thread_iteration_def k_msgq_get_forever_def may_access_def
      has_grant_def LOG_def set_q_def get_q_def Let_def split: list.splits)

lemma attack_supervisor:
  "threads s t = Supervisor \<Longrightarrow> msgs (secret_q s) = [] \<Longrightarrow>
   cmd_attack_try_secret t s =
     Normal 0 (s\<lparr>shell_out := shell_out s @ [Print_attempting, Print_unexpected (- ENOMSG)]\<rparr>)"
  by (simp add: cmd_attack_try_secret_def k_msgq_get_no_wait_def may_access_def
      shell_print_def get_q_def Let_def)

text \<open>The monitor does fault a user-mode thread that holds no grant for the shadow
  channel: run by such a thread, the handler does not reach the statements after the
  receive call.\<close>

lemma attack_user_no_grant:
  "threads s t = User \<Longrightarrow> \<not> has_grant s t Secret_q \<Longrightarrow>
   cmd_attack_try_secret t s =
     Fatal (s\<lparr>shell_out := shell_out s @ [Print_attempting],
              threads := (threads s)(t := Terminated)\<rparr>)"
  by (simp add: cmd_attack_try_secret_def k_msgq_get_no_wait_def may_access_def
      shell_print_def k_oops_def has_grant_def Let_def)

lemma set_cases:
  "cmd_counter_set argv s = (- EINVAL, shell_print Error_usage s) \<or>
   cmd_counter_set argv s = (- EINVAL, shell_print Error_invalid s) \<or>
   (\<exists>p. cmd_counter_set argv s =
      (0, s\<lparr>period_ms := p,
             tick_timer := k_timer_start p p (k_timer_stop (tick_timer s)),
             shell_out := shell_out s @ [Print_period_set p]\<rparr>))"
  by (auto simp add: cmd_counter_set_def shell_print_def Let_def split: prod.splits)

lemma exec_append: "exec (es @ fs) s = exec fs (exec es s)"
  by (induction es arbitrary: s) simp_all

subsection \<open>The invariant of the started system\<close>

lemma sys_inv_started: "sys_inv started"
  by (simp add: sys_inv_def started_def main_init_def boot_def LOG_def
      k_object_access_all_grant_def k_thread_create_user_def k_timer_init_def
      k_timer_start_def Let_def)

lemma sys_inv_step:
  assumes "sys_inv s"
  shows "sys_inv (step e s)"
proof (cases e)
  case Timer_expiry
  with assms show ?thesis
    by (simp add: step_def sys_inv_def tick_timer_handler_def k_work_submit_def)
next
  case (Work_run now)
  with assms show ?thesis
    by (simp add: step_def sys_inv_def tick_supervisor)
next
  case Consumer_turn
  with assms show ?thesis
    by (auto simp add: step_def sys_inv_def consumer_granted split: list.splits)
next
  case Main_turn
  with assms show ?thesis
    by (simp add: step_def sys_inv_def main_loop_iteration_def LOG_def)
next
  case (Shell_get n)
  with assms show ?thesis
    by (simp add: step_def sys_inv_def cmd_counter_get_def shell_print_def)
next
  case (Shell_set argv)
  with assms set_cases [of argv s] show ?thesis
    by (auto simp add: step_def sys_inv_def shell_print_def k_timer_start_def k_timer_stop_def)
next
  case Shell_attack
  with assms show ?thesis
    by (simp add: step_def sys_inv_def attack_supervisor outcome_state_def)
qed

lemma sys_inv_exec: "sys_inv s \<Longrightarrow> sys_inv (exec es s)"
  by (induction es arbitrary: s) (simp_all add: sys_inv_step)

lemma sys_inv_reachable: "sys_inv (exec es started)"
  by (rule sys_inv_exec [OF sys_inv_started])

text \<open>Were the consumer thread itself to run the handler, in any state the started
  system reaches, it would be killed inside the receive call, and the producer side
  would go on: the timer keeps running and the next production attempt still advances
  the sequence counter.\<close>

lemma attack_by_consumer_faults:
  "cmd_attack_try_secret Consumer_tid (exec es started) =
     Fatal ((exec es started)\<lparr>shell_out := shell_out (exec es started) @ [Print_attempting],
              threads := (threads (exec es started))(Consumer_tid := Terminated)\<rparr>)"
proof -
  have "sys_inv (exec es started)" by (rule sys_inv_reachable)
  then have "threads (exec es started) Consumer_tid = User"
    and "\<not> has_grant (exec es started) Consumer_tid Secret_q"
    by (simp_all add: sys_inv_def has_grant_def)
  then show ?thesis by (rule attack_user_no_grant)
qed

lemma producer_survives_consumer_fault:
  assumes "cmd_attack_try_secret Consumer_tid (exec es started) = Fatal f"
  shows "threads f Consumer_tid = Terminated \<and> running (tick_timer f) \<and>
         counter_q f = counter_q (exec es started) \<and> seq_cnt f = seq_cnt (exec es started) \<and>
         seq_cnt (exec [Timer_expiry, Work_run now] f) = seq_cnt f + 1"
proof -
  have inv: "sys_inv (exec es started)" by (rule sys_inv_reachable)
  from assms have f: "f = (exec es started)\<lparr>shell_out := shell_out (exec es started) @
      [Print_attempting], threads := (threads (exec es started))(Consumer_tid := Terminated)\<rparr>"
    by (simp add: attack_by_consumer_faults)
  from inv show ?thesis
    by (simp add: f sys_inv_def step_def tick_timer_handler_def k_work_submit_def
        tick_supervisor)
qed

subsection \<open>The sequence counter along a run\<close>

lemma seq_cnt_step_work:
  "seq_cnt (step (Work_run now) s) = seq_cnt s + (if work_pending s then 1 else 0)"
  by (simp add: step_def tick_work_handler_def k_msgq_put_no_wait_def k_oops_def LOG_def
      set_q_def get_q_def Let_def)

lemma seq_cnt_step_other:
  "\<forall>now. e \<noteq> Work_run now \<Longrightarrow> seq_cnt (step e s) = seq_cnt s"
  by (cases e)
    (simp_all add: step_def tick_timer_handler_def k_work_submit_def
      consumer_thread_iteration_def k_msgq_get_forever_def k_oops_def LOG_def set_q_def
      get_q_def main_loop_iteration_def cmd_counter_get_def cmd_counter_set_def
      shell_print_def cmd_attack_try_secret_def outcome_state_def k_msgq_get_no_wait_def
      Let_def split: list.splits prod.splits)

lemma seq_cnt_exec:
  "seq_cnt (exec es s) = seq_cnt s + of_nat (work_runs es s)"
proof (induction es s rule: work_runs.induct)
  case (1 s)
  show ?case by simp
next
  case (2 now es s)
  then show ?case by (simp add: seq_cnt_step_work)
qed (simp_all add: seq_cnt_step_other)

section \<open>The capability boundary\<close>

text \<open>
  Claim C1. The claim: the \<^verbatim>\<open>attack\<close> command always ends with the restricted context
  killed, and the statement after the receive call in \<^verbatim>\<open>cmd_attack_try_secret\<close> is never
  reached. What the program does: the handler is registered with \<^verbatim>\<open>SHELL_CMD\<close> like
  \<^verbatim>\<open>get\<close> and \<^verbatim>\<open>set\<close>, so its body, the receive call included, runs on the shell thread;
  the body of \<^verbatim>\<open>consumer_thread\<close>, the one user-mode thread, never touches the shadow
  channel. In every state the started system reaches, the call therefore passes the
  monitor, finds the shadow channel empty, returns \<open>-ENOMSG\<close>, the line "unexpectedly
  returned" is printed, the handler returns 0, and the consumer thread is still alive in
  user mode afterwards.
\<close>

theorem attack_returns_on_shell_thread:
  "cmd_attack_try_secret Shell_thread (exec es started) =
     Normal 0 ((exec es started)\<lparr>shell_out := shell_out (exec es started) @
        [Print_attempting, Print_unexpected (- ENOMSG)]\<rparr>) \<and>
   threads (exec (es @ [Shell_attack]) started) Consumer_tid = User"
proof -
  have inv: "sys_inv (exec es started)" by (rule sys_inv_reachable)
  have "sys_inv (exec (es @ [Shell_attack]) started)" by (rule sys_inv_reachable)
  then have alive: "threads (exec (es @ [Shell_attack]) started) Consumer_tid = User"
    by (simp add: sys_inv_def)
  from inv have "threads (exec es started) Shell_thread = Supervisor"
    and "msgs (secret_q (exec es started)) = []"
    by (simp_all add: sys_inv_def)
  then show ?thesis using alive by (simp add: attack_supervisor)
qed

text \<open>
  Claim C2. In every state the started system reaches, the grant set of the consumer
  thread is exactly the authorized channel; the shadow channel is not in it and a call
  of the consumer on it does not pass the monitor. The authorized channel is reachable
  from both contexts, the supervisor-mode one and the user-mode one, and the shadow
  channel from the supervisor-mode one only. No step changes the grants made by
  \<^verbatim>\<open>main\<close>.
\<close>

theorem grants_after_startup:
  "grant_set (exec es started) Consumer_tid = {Counter_q} \<and>
   Secret_q \<notin> grant_set (exec es started) Consumer_tid \<and>
   may_access (exec es started) Consumer_tid Counter_q \<and>
   \<not> may_access (exec es started) Consumer_tid Secret_q \<and>
   set (map (threads (exec es started)) (accessors (exec es started) Counter_q))
     = {Supervisor, User} \<and>
   set (map (threads (exec es started)) (accessors (exec es started) Secret_q))
     = {Supervisor} \<and>
   public_objs (exec es started) = public_objs started \<and>
   thread_perms (exec es started) = thread_perms started"
proof -
  have inv: "sys_inv (exec es started)" by (rule sys_inv_reachable)
  have inv0: "sys_inv started" by (rule sys_inv_started)
  from inv inv0 show ?thesis
    by (auto simp add: sys_inv_def grant_set_def has_grant_def may_access_def accessors_def
        all_threads_def)
qed

section \<open>The sequence counter\<close>

text \<open>
  Claim C7. The sequence counter is 0 in the initial image and when \<^verbatim>\<open>main\<close> has
  started the system. \<^verbatim>\<open>tick_work_handler\<close> adds exactly one to it in every state,
  whether the enqueue succeeds or not; no other function of the program writes it. So
  every event of a run adds the number of production attempts it makes, one or none.
  (The addition is that of the machine word.)
\<close>

theorem seq_cnt_once_per_attempt:
  "seq_cnt boot = 0 \<and> seq_cnt started = 0 \<and>
   seq_cnt (tick_work_handler now s) = seq_cnt s + 1 \<and>
   seq_cnt (tick_timer_handler s) = seq_cnt s \<and>
   seq_cnt (consumer_thread_iteration s) = seq_cnt s \<and>
   seq_cnt (main_loop_iteration s) = seq_cnt s \<and>
   seq_cnt (snd (cmd_counter_get unused s)) = seq_cnt s \<and>
   seq_cnt (snd (cmd_counter_set argv s)) = seq_cnt s \<and>
   seq_cnt (outcome_state (cmd_attack_try_secret t s)) = seq_cnt s \<and>
   seq_cnt (step e s) = seq_cnt s + of_nat (work_runs [e] s) \<and>
   work_runs [e] s \<le> 1"
proof -
  have init: "seq_cnt boot = 0" "seq_cnt started = 0"
    by (simp_all add: started_def main_init_def boot_def LOG_def
        k_object_access_all_grant_def k_thread_create_user_def Let_def)
  have tick: "seq_cnt (tick_work_handler now s) = seq_cnt s + 1"
    by (simp add: tick_work_handler_def k_msgq_put_no_wait_def k_oops_def LOG_def
        set_q_def get_q_def Let_def)
  have timer: "seq_cnt (tick_timer_handler s) = seq_cnt s"
    by (simp add: tick_timer_handler_def k_work_submit_def)
  have consumer: "seq_cnt (consumer_thread_iteration s) = seq_cnt s"
    by (simp add: consumer_thread_iteration_def k_msgq_get_forever_def k_oops_def LOG_def
        set_q_def get_q_def Let_def split: list.splits)
  have main: "seq_cnt (main_loop_iteration s) = seq_cnt s"
    by (simp add: main_loop_iteration_def LOG_def)
  have get: "seq_cnt (snd (cmd_counter_get unused s)) = seq_cnt s"
    by (simp add: cmd_counter_get_def shell_print_def)
  have set: "seq_cnt (snd (cmd_counter_set argv s)) = seq_cnt s"
    by (simp add: cmd_counter_set_def shell_print_def Let_def split: prod.splits)
  have attack: "seq_cnt (outcome_state (cmd_attack_try_secret t s)) = seq_cnt s"
    by (simp add: cmd_attack_try_secret_def outcome_state_def k_msgq_get_no_wait_def
        k_oops_def shell_print_def set_q_def get_q_def Let_def split: list.splits)
  have step: "seq_cnt (step e s) = seq_cnt s + of_nat (work_runs [e] s)"
    using seq_cnt_exec [of "[e]" s] by simp
  have le: "work_runs [e] s \<le> 1"
    by (cases e) simp_all
  from init tick timer consumer main get set attack step le show ?thesis
    by blast
qed

theorem seq_cnt_once_per_attempt_witness:
  "seq_cnt (tick_work_handler 5 started) = 1 \<and>
   seq_cnt (snd (cmd_counter_set [''set'', ''250''] started)) = 0 \<and>
   seq_cnt (step (Work_run 5) (step Timer_expiry started)) = 1 \<and>
   seq_cnt (step Consumer_turn started) = 0"
proof -
  have z: "seq_cnt started = 0"
    using seq_cnt_once_per_attempt [of 5 started 0 "[]" Shell_thread Timer_expiry]
    by blast
  have w1: "work_runs [Work_run 5] (step Timer_expiry started) = 1"
    by code_simp
  have w0: "work_runs [Consumer_turn] started = 0"
    by simp
  have t: "seq_cnt (step Timer_expiry started) = 0"
    using seq_cnt_once_per_attempt [of 5 started 0 "[]" Shell_thread Timer_expiry] z
    by simp
  show ?thesis
    using seq_cnt_once_per_attempt [of 5 started 0 "[''set'', ''250'']" Shell_thread Consumer_turn]
      seq_cnt_once_per_attempt [of 5 "step Timer_expiry started" 0 "[]" Shell_thread "Work_run 5"]
      z w1 w0 t
    by simp
qed

section \<open>The bounded channel\<close>

lemma full_run_length: "length (msgs (counter_q (exec full_run started))) = 16"
  by code_simp

text \<open>
  Claim C8. In every state the started system reaches, the authorized channel has
  capacity 16 and holds at most 16 messages; when it holds 16, a production attempt
  returns with the channel as it was: the new message is dropped, the queue does not
  grow and the producer does not wait.
\<close>

theorem counter_q_bounded:
  "max_msgs (counter_q (exec es started)) = 16 \<and>
   length (msgs (counter_q (exec es started))) \<le> 16 \<and>
   (length (msgs (counter_q (exec es started))) = 16 \<longrightarrow>
      counter_q (tick_work_handler now (exec es started)) = counter_q (exec es started))"
proof -
  have "sys_inv (exec es started)" by (rule sys_inv_reachable)
  then show ?thesis by (simp add: sys_inv_def tick_supervisor)
qed

theorem counter_q_bounded_witness:
  "length (msgs (counter_q (exec full_run started))) = 16 \<and>
   counter_q (tick_work_handler 8 (exec full_run started)) = counter_q (exec full_run started)"
  using counter_q_bounded [of full_run 8] full_run_length by simp

subsection \<open>Dropping on a full channel\<close>

text \<open>
  Claim C3, as the program has it. When the authorized channel is full, a production
  attempt changes two things only: the sequence counter goes up by one, as in every
  attempt, and one warning naming the dropped sequence number is logged. The channel is
  left as it is, the handler returns after the single non-blocking call (no retry, no
  wait), \<^verbatim>\<open>get\<close> then returns 0 and prints the period and the counter, and the return
  code of \<^verbatim>\<open>set\<close> is what it would have been without the drop. The program keeps no
  drop counter: the warnings in the log are the only record of the drops.
\<close>

theorem full_channel_drops_newest:
  assumes "length (msgs (counter_q (exec es started))) = 16"
  shows "tick_work_handler now (exec es started) =
           (exec es started)\<lparr>seq_cnt := seq_cnt (exec es started) + 1,
              log := log (exec es started) @ [Wrn_dropped (ucast (seq_cnt (exec es started)))]\<rparr> \<and>
         cmd_counter_get unused (tick_work_handler now (exec es started)) =
           (0, shell_print (Print_status (period_ms (exec es started))
                  (ucast (seq_cnt (exec es started) + 1)) unused)
                 (tick_work_handler now (exec es started))) \<and>
         fst (cmd_counter_set argv (tick_work_handler now (exec es started)))
           = fst (cmd_counter_set argv (exec es started))"
proof -
  have inv: "sys_inv (exec es started)" by (rule sys_inv_reachable)
  with assms have t: "tick_work_handler now (exec es started) =
           (exec es started)\<lparr>seq_cnt := seq_cnt (exec es started) + 1,
              log := log (exec es started) @ [Wrn_dropped (ucast (seq_cnt (exec es started)))]\<rparr>"
    by (simp add: sys_inv_def tick_supervisor)
  have f: "\<And>s s'. fst (cmd_counter_set argv s) = fst (cmd_counter_set argv s')"
    by (simp add: cmd_counter_set_def Let_def split: prod.splits)
  from t f [of "tick_work_handler now (exec es started)" "exec es started"] show ?thesis
    by (simp add: cmd_counter_get_def shell_print_def)
qed

theorem full_channel_drops_newest_witness:
  "length (msgs (counter_q (exec full_run started))) = 16 \<and>
   tick_work_handler 8 (exec full_run started) =
     (exec full_run started)\<lparr>seq_cnt := seq_cnt (exec full_run started) + 1,
        log := log (exec full_run started) @
          [Wrn_dropped (ucast (seq_cnt (exec full_run started)))]\<rparr>"
  using full_channel_drops_newest [OF full_run_length, of 8 0 "[]"] full_run_length
  by blast

lemma full_state_facts:
  "seq_cnt (exec full_run started) = 16" "log (exec full_run started) = [Inf_starting]"
  by code_simp+

text \<open>
  The claim as written asks for a drop counter that is incremented. After sixteen
  undelivered productions the channel is full; the seventeenth attempt leaves every
  variable of the program as it was, apart from the sequence counter, which counts
  attempts and goes up on a successful attempt as well, and the log.
\<close>

theorem no_drop_counter_counterexample:
  "tick_work_handler 8 (exec full_run started) =
     (exec full_run started)\<lparr>seq_cnt := 17, log := [Inf_starting, Wrn_dropped 16]\<rparr> \<and>
   seq_cnt (exec full_run started) = 16 \<and>
   seq_cnt (tick_work_handler 8 started) = seq_cnt started + 1"
proof -
  have inv: "sys_inv (exec full_run started)" by (rule sys_inv_reachable)
  have "tick_work_handler 8 (exec full_run started) =
     (exec full_run started)\<lparr>seq_cnt := 17, log := [Inf_starting, Wrn_dropped 16]\<rparr>"
    using inv full_run_length by (simp add: sys_inv_def tick_supervisor full_state_facts)
  moreover have "seq_cnt (tick_work_handler 8 started) = seq_cnt started + 1"
    using sys_inv_started by (simp add: sys_inv_def tick_supervisor)
  ultimately show ?thesis by (simp add: full_state_facts)
qed


section \<open>What the consumer observes\<close>

lemma delivered_append: "delivered (xs @ ys) = delivered xs @ delivered ys"
  by (induction xs rule: delivered.induct) simp_all

lemma chan_trace_step:
  assumes "sys_inv s"
  shows "chan_trace (step e s) = chan_trace s @ enqueued e s"
proof (cases e)
  case Timer_expiry
  with assms show ?thesis
    by (simp add: step_def chan_trace_def enqueued_def tick_timer_handler_def k_work_submit_def)
next
  case (Work_run now)
  with assms show ?thesis
    by (simp add: step_def sys_inv_def chan_trace_def enqueued_def tick_supervisor
        delivered_append tick_msg_def)
next
  case Consumer_turn
  with assms show ?thesis
    by (simp add: step_def sys_inv_def chan_trace_def enqueued_def consumer_granted
        delivered_append split: list.splits)
next
  case Main_turn
  with assms show ?thesis
    by (simp add: step_def chan_trace_def enqueued_def main_loop_iteration_def LOG_def
        delivered_append)
next
  case (Shell_get n)
  with assms show ?thesis
    by (simp add: step_def chan_trace_def enqueued_def cmd_counter_get_def shell_print_def)
next
  case (Shell_set argv)
  with assms set_cases [of argv s] show ?thesis
    by (auto simp add: step_def chan_trace_def enqueued_def shell_print_def)
next
  case Shell_attack
  with assms show ?thesis
    by (simp add: step_def sys_inv_def chan_trace_def enqueued_def attack_supervisor
        outcome_state_def)
qed

lemma work_runs_Cons: "work_runs (e # es) s = work_runs [e] s + work_runs es (step e s)"
  by (cases e) simp_all

lemma enqueued_cases:
  "enqueued e s = [] \<or>
   (\<exists>now. e = Work_run now \<and> work_runs [e] s = 1 \<and> enqueued e s = [tick_msg now s])"
  by (cases e) (simp_all add: enqueued_def)

lemma seq_inv_step:
  assumes inv: "seq_inv A s" and bound: "A + work_runs [e] s \<le> 2 ^ 32"
  shows "seq_inv (A + work_runs [e] s) (step e s)"
proof -
  from inv have si: "sys_inv s" and cnt: "seq_cnt s = of_nat A"
    and srt: "sorted_wrt (<) (map seq (chan_trace s))"
    and low: "list_all (\<lambda>m. unat (seq m) < A) (chan_trace s)"
    by (simp_all add: seq_inv_def)
  have si': "sys_inv (step e s)" using si by (rule sys_inv_step)
  have cnt': "seq_cnt (step e s) = of_nat (A + work_runs [e] s)"
    using seq_cnt_exec [of "[e]" s] cnt by simp
  have low0: "list_all (\<lambda>m. unat (seq m) < A + work_runs [e] s) (chan_trace s)"
    using low by (simp add: list_all_iff) (meson trans_less_add1)
  from enqueued_cases [of e s] show ?thesis
  proof
    assume "enqueued e s = []"
    then have "chan_trace (step e s) = chan_trace s"
      using chan_trace_step [OF si, of e] by simp
    with si' cnt' bound srt low0 show ?thesis
      by (simp add: seq_inv_def)
  next
    assume "\<exists>now. e = Work_run now \<and> work_runs [e] s = 1 \<and> enqueued e s = [tick_msg now s]"
    then obtain now where one: "work_runs [e] s = 1" and enq: "enqueued e s = [tick_msg now s]"
      by blast
    from bound one have A: "A < 2 ^ 32" by simp
    have sq: "unat (seq (tick_msg now s)) = A"
      using A by (simp add: tick_msg_def cnt unat_of_nat)
    have tr: "chan_trace (step e s) = chan_trace s @ [tick_msg now s]"
      using chan_trace_step [OF si, of e] enq by simp
    have lt: "\<forall>m \<in> set (chan_trace s). seq m < seq (tick_msg now s)"
      using low sq by (simp add: list_all_iff word_less_nat_alt)
    from si' cnt' bound srt low lt sq one show ?thesis
      by (auto simp add: seq_inv_def tr sorted_wrt_append list_all_iff)
  qed
qed

lemma seq_inv_exec:
  "seq_inv A s \<Longrightarrow> A + work_runs es s \<le> 2 ^ 32 \<Longrightarrow> seq_inv (A + work_runs es s) (exec es s)"
proof (induction es arbitrary: A s)
  case Nil
  then show ?case by simp
next
  case (Cons e es)
  from Cons.prems(2) have b: "A + work_runs [e] s + work_runs es (step e s) \<le> 2 ^ 32"
    by (simp add: work_runs_Cons [of e es s])
  then have "A + work_runs [e] s \<le> 2 ^ 32" by simp
  with Cons.prems(1) have "seq_inv (A + work_runs [e] s) (step e s)" by (rule seq_inv_step)
  from Cons.IH [OF this b] show ?case
    by (simp add: work_runs_Cons [of e es s] add.assoc)
qed

lemma seq_inv_started: "seq_inv 0 started"
  using sys_inv_started
  by (simp add: seq_inv_def chan_trace_def started_def main_init_def boot_def LOG_def
      k_object_access_all_grant_def k_thread_create_user_def Let_def)

lemma sample_run_attempts: "work_runs sample_run started \<le> 2 ^ 32"
proof -
  have "work_runs sample_run started = 3" by code_simp
  then show ?thesis by simp
qed

text \<open>
  Claim C6, as the program has it. In every run with at most \<open>2^32\<close> production
  attempts, the sequence numbers of the messages the consumer takes out of the channel
  are strictly increasing in the order they are taken out, so none is delivered twice;
  gaps are allowed.
\<close>

theorem delivered_seq_increasing:
  assumes "work_runs es started \<le> 2 ^ 32"
  shows "sorted_wrt (<) (map seq (delivered (log (exec es started)))) \<and>
         distinct (map seq (delivered (log (exec es started))))"
proof -
  from seq_inv_exec [OF seq_inv_started, of es] assms
  have "seq_inv (work_runs es started) (exec es started)" by simp
  then have "sorted_wrt (<) (map seq (chan_trace (exec es started)))"
    by (simp add: seq_inv_def)
  then have s: "sorted_wrt (<) (map seq (delivered (log (exec es started))))"
    by (simp add: chan_trace_def sorted_wrt_append)
  then have "distinct (map seq (delivered (log (exec es started))))"
    using strict_sorted_iff by blast
  with s show ?thesis by simp
qed

theorem delivered_seq_increasing_witness:
  "work_runs sample_run started \<le> 2 ^ 32 \<and>
   sorted_wrt (<) (map seq (delivered (log (exec sample_run started)))) \<and>
   distinct (map seq (delivered (log (exec sample_run started))))"
  using delivered_seq_increasing [OF sample_run_attempts] sample_run_attempts
  by blast

lemma cycles_Suc: "cycles (Suc n) = cycles n @ [Timer_expiry, Work_run 0, Consumer_turn]"
proof -
  have "replicate (Suc n) c = replicate n c @ [c]" for c :: "event list"
    by (simp add: replicate_append_same)
  then show ?thesis
    unfolding cycles_def by (simp only: concat_append) simp
qed

lemma one_cycle:
  assumes "idle s"
  shows "idle (exec [Timer_expiry, Work_run 0, Consumer_turn] s) \<and>
         seq_cnt (exec [Timer_expiry, Work_run 0, Consumer_turn] s) = seq_cnt s + 1 \<and>
         delivered (log (exec [Timer_expiry, Work_run 0, Consumer_turn] s))
           = delivered (log s) @ [\<lparr> seq = seq_cnt s, ts_ms = 0 \<rparr>]"
  using assms
  by (simp add: idle_def sys_inv_def step_def tick_timer_handler_def k_work_submit_def
      tick_supervisor consumer_granted tick_msg_def delivered_append)

lemma cycles_run:
  "idle s \<Longrightarrow>
   idle (exec (cycles n) s) \<and> seq_cnt (exec (cycles n) s) = seq_cnt s + of_nat n \<and>
   delivered (log (exec (cycles n) s))
     = delivered (log s) @ map (\<lambda>i. \<lparr> seq = seq_cnt s + of_nat i, ts_ms = 0 \<rparr>) [0..<n]"
proof (induction n)
  case 0
  then show ?case by (simp add: cycles_def)
next
  case (Suc n)
  then have ih: "idle (exec (cycles n) s)"
    "seq_cnt (exec (cycles n) s) = seq_cnt s + of_nat n"
    "delivered (log (exec (cycles n) s))
     = delivered (log s) @ map (\<lambda>i. \<lparr> seq = seq_cnt s + of_nat i, ts_ms = 0 \<rparr>) [0..<n]"
    by simp_all
  from one_cycle [OF ih(1)] ih(2,3) show ?case
    by (simp add: cycles_Suc exec_append add.assoc)
qed

lemma idle_started: "idle started"
  using sys_inv_started
  by (simp add: idle_def started_def main_init_def boot_def LOG_def
      k_object_access_all_grant_def k_thread_create_user_def Let_def)

lemma delivered_cycles:
  "map seq (delivered (log (exec (cycles n) started))) = map of_nat [0..<n]"
proof -
  have "seq_cnt started = 0" "delivered (log started) = []"
    by (simp_all add: started_def main_init_def boot_def LOG_def
        k_object_access_all_grant_def k_thread_create_user_def Let_def)
  with cycles_run [OF idle_started, of n] show ?thesis by (simp add: o_def)
qed

lemma wrapped_duplicate:
  assumes "2 ^ 32 < n"
  shows "\<not> distinct (map (of_nat :: nat \<Rightarrow> u32) [0..<n])"
proof
  assume d: "distinct (map (of_nat :: nat \<Rightarrow> u32) [0..<n])"
  have i0: "map (of_nat :: nat \<Rightarrow> u32) [0..<n] ! 0 = 0"
    using assms by (simp only: nth_map length_upt nth_upt) simp
  have i1: "map (of_nat :: nat \<Rightarrow> u32) [0..<n] ! (2 ^ 32) = 0"
  proof -
    have "map (of_nat :: nat \<Rightarrow> u32) [0..<n] ! (2 ^ 32) = of_nat (2 ^ 32)"
      using assms by (simp only: nth_map length_upt nth_upt) simp
    also have "\<dots> = (0 :: u32)" by simp
    finally show ?thesis .
  qed
  have "(0::nat) < length (map (of_nat :: nat \<Rightarrow> u32) [0..<n])"
    and "(2::nat) ^ 32 < length (map (of_nat :: nat \<Rightarrow> u32) [0..<n])"
    using assms by simp_all
  with d have "(map (of_nat :: nat \<Rightarrow> u32) [0..<n] ! 0 = map (of_nat :: nat \<Rightarrow> u32) [0..<n] ! (2 ^ 32))
      = ((0::nat) = 2 ^ 32)"
    by (rule nth_eq_iff_index_eq)
  with i0 i1 show False by simp
qed

text \<open>
  The claim as written, for any run, fails when the 32-bit sequence number wraps: with
  a consumer that keeps up, the message of attempt \<open>2^32 + 1\<close> carries sequence number 0
  again, after the messages 0 to \<open>2^32 - 1\<close> have been delivered.
\<close>

theorem wrap_counterexample:
  "\<not> distinct (map seq (delivered (log (exec wrap_run started)))) \<and>
   \<not> sorted_wrt (<) (map seq (delivered (log (exec wrap_run started))))"
proof -
  have lt: "(2::nat) ^ 32 < 2 ^ 32 + 1" by simp
  have nd: "\<not> distinct (map seq (delivered (log (exec wrap_run started))))"
    unfolding wrap_run_def delivered_cycles by (rule wrapped_duplicate [OF lt])
  then have "\<not> sorted_wrt (<) (map seq (delivered (log (exec wrap_run started))))"
    using strict_sorted_iff by blast
  with nd show ?thesis by simp
qed

lemma enqueued_ts:
  "enqueued e s = [] \<or> (\<exists>now. e = Work_run now \<and> enqueued e s = [tick_msg now s])"
  by (cases e) (simp_all add: enqueued_def)

lemma trace_ts_sorted:
  assumes "sys_inv s"
    and "sorted_wrt ts_le (map ts_ms (chan_trace s))"
    and "sorted_wrt ts_le (readings es)"
    and "\<forall>m \<in> set (chan_trace s). \<forall>t \<in> set (readings es). ts_le (ts_ms m) t"
  shows "sorted_wrt ts_le (map ts_ms (chan_trace (exec es s)))"
  using assms
proof (induction es arbitrary: s)
  case Nil
  then show ?case by simp
next
  case (Cons e es)
  have si: "sys_inv (step e s)" using Cons.prems(1) by (rule sys_inv_step)
  have tr: "chan_trace (step e s) = chan_trace s @ enqueued e s"
    using Cons.prems(1) by (rule chan_trace_step)
  from enqueued_ts [of e s]
  have "sorted_wrt ts_le (map ts_ms (chan_trace (step e s))) \<and>
        sorted_wrt ts_le (readings es) \<and>
        (\<forall>m \<in> set (chan_trace (step e s)). \<forall>t \<in> set (readings es). ts_le (ts_ms m) t)"
  proof
    assume none: "enqueued e s = []"
    have sub: "set (readings es) \<subseteq> set (readings (e # es))"
      by (cases e) auto
    have "sorted_wrt ts_le (readings es)"
      using Cons.prems(3) by (cases e) simp_all
    with none tr Cons.prems(2,4) sub show ?thesis by auto
  next
    assume "\<exists>now. e = Work_run now \<and> enqueued e s = [tick_msg now s]"
    then obtain now where e: "e = Work_run now" and enq: "enqueued e s = [tick_msg now s]"
      by blast
    from e Cons.prems(3) have r: "sorted_wrt ts_le (readings es)"
      and nr: "\<forall>t \<in> set (readings es). ts_le now t" by simp_all
    from e Cons.prems(4) have old: "\<forall>m \<in> set (chan_trace s). ts_le (ts_ms m) now"
      by simp
    from e Cons.prems(4) have old2:
      "\<forall>m \<in> set (chan_trace s). \<forall>t \<in> set (readings es). ts_le (ts_ms m) t"
      by simp
    from Cons.prems(2) old r nr old2 show ?thesis
      by (auto simp add: tr enq sorted_wrt_append tick_msg_def)
  qed
  then show ?case
    using Cons.IH [OF si] by simp
qed

lemma sample_run_readings: "sorted_wrt ts_le (readings sample_run)"
  by code_simp

text \<open>
  Claim C9. When the readings of \<^verbatim>\<open>k_uptime_get\<close> along a run do not decrease (the
  uptime clock is monotonic), the timestamps of the messages the consumer takes out of
  the channel do not decrease either: pairwise in dequeue order, and so for every two
  consecutive messages.
\<close>

theorem delivered_timestamps_sorted:
  assumes "sorted_wrt ts_le (readings es)"
  shows "sorted_wrt ts_le (map ts_ms (delivered (log (exec es started)))) \<and>
         (\<forall>i. Suc i < length (delivered (log (exec es started))) \<longrightarrow>
            sint (ts_ms (delivered (log (exec es started)) ! i))
              \<le> sint (ts_ms (delivered (log (exec es started)) ! Suc i)))"
proof -
  have e: "chan_trace started = []"
    by (simp add: chan_trace_def started_def main_init_def boot_def LOG_def
        k_object_access_all_grant_def k_thread_create_user_def Let_def)
  have "sorted_wrt ts_le (map ts_ms (chan_trace (exec es started)))"
    by (rule trace_ts_sorted [OF sys_inv_started _ assms]) (simp_all add: e)
  then have s: "sorted_wrt ts_le (map ts_ms (delivered (log (exec es started))))"
    by (simp add: chan_trace_def sorted_wrt_append)
  then have "\<forall>i. Suc i < length (delivered (log (exec es started))) \<longrightarrow>
            ts_le (ts_ms (delivered (log (exec es started)) ! i))
              (ts_ms (delivered (log (exec es started)) ! Suc i))"
    by (simp add: sorted_wrt_map sorted_wrt_iff_nth_less)
  with s show ?thesis by (simp add: ts_le_def)
qed

theorem delivered_timestamps_sorted_witness:
  "sorted_wrt ts_le (readings sample_run) \<and>
   sorted_wrt ts_le (map ts_ms (delivered (log (exec sample_run started))))"
  using delivered_timestamps_sorted [OF sample_run_readings] sample_run_readings
  by blast

section \<open>The sequence numbers of the messages\<close>

lemma dropped_seqs_append: "dropped_seqs (xs @ ys) = dropped_seqs xs @ dropped_seqs ys"
  by (induction xs rule: dropped_seqs.induct) simp_all

lemma attempted_seqs_step:
  assumes "sys_inv s"
  shows "attempted_seqs (step e s) =
           (if work_runs [e] s = 0 then attempted_seqs s
            else add_mset (seq_cnt s) (attempted_seqs s))"
proof (cases e)
  case Timer_expiry
  with assms show ?thesis
    by (simp add: step_def attempted_seqs_def chan_trace_def tick_timer_handler_def
        k_work_submit_def)
next
  case (Work_run now)
  with assms show ?thesis
    by (simp add: step_def sys_inv_def attempted_seqs_def chan_trace_def tick_supervisor
        delivered_append dropped_seqs_append tick_msg_def)
next
  case Consumer_turn
  with assms show ?thesis
    by (simp add: step_def sys_inv_def attempted_seqs_def chan_trace_def consumer_granted
        delivered_append dropped_seqs_append split: list.splits)
next
  case Main_turn
  with assms show ?thesis
    by (simp add: step_def attempted_seqs_def chan_trace_def main_loop_iteration_def LOG_def
        delivered_append dropped_seqs_append)
next
  case (Shell_get n)
  with assms show ?thesis
    by (simp add: step_def attempted_seqs_def chan_trace_def cmd_counter_get_def
        shell_print_def)
next
  case (Shell_set argv)
  with assms set_cases [of argv s] show ?thesis
    by (auto simp add: step_def attempted_seqs_def chan_trace_def shell_print_def)
next
  case Shell_attack
  with assms show ?thesis
    by (simp add: step_def sys_inv_def attempted_seqs_def chan_trace_def attack_supervisor
        outcome_state_def)
qed

lemma work_runs_single_le: "work_runs [e] s \<le> 1"
  by (cases e) simp_all

lemma seq_list_Suc:
  "map (\<lambda>i. c + of_nat i) [0..<Suc m] = c # map (\<lambda>i. (c + 1) + of_nat i) [0..<m]"
  for c :: u32
proof -
  have "[0..<Suc m] = 0 # map Suc [0..<m]"
    by (simp only: map_Suc_upt upt_conv_Cons [of 0 "Suc m"] zero_less_Suc)
  then have "map (\<lambda>i. c + of_nat i) [0..<Suc m]
      = map (\<lambda>i. c + of_nat i) (0 # map Suc [0..<m])"
    by (rule arg_cong)
  also have "\<dots> = c # map (\<lambda>i. (c + 1) + of_nat i) [0..<m]"
    by (simp add: o_def add.assoc)
  finally show ?thesis .
qed

lemma attempted_seqs_exec:
  "sys_inv s \<Longrightarrow>
   attempted_seqs (exec es s) =
     attempted_seqs s + mset (map (\<lambda>i. seq_cnt s + of_nat i) [0..<work_runs es s])"
proof (induction es arbitrary: s)
  case Nil
  then show ?case by simp
next
  case (Cons e es)
  have si: "sys_inv (step e s)" using Cons.prems by (rule sys_inv_step)
  have cnt: "seq_cnt (step e s) = seq_cnt s + of_nat (work_runs [e] s)"
    using seq_cnt_exec [of "[e]" s] by simp
  have ih: "attempted_seqs (exec (e # es) s) =
      attempted_seqs (step e s)
        + mset (map (\<lambda>i. seq_cnt (step e s) + of_nat i) [0..<work_runs es (step e s)])"
    using Cons.IH [OF si] by simp
  show ?case
  proof (cases "work_runs [e] s = 0")
    case True
    then have "work_runs (e # es) s = work_runs es (step e s)"
      by (simp add: work_runs_Cons [of e es s])
    moreover from True have "seq_cnt (step e s) = seq_cnt s"
      using cnt by simp
    moreover from True have "attempted_seqs (step e s) = attempted_seqs s"
      by (simp add: attempted_seqs_step [OF Cons.prems])
    ultimately show ?thesis using ih by (simp only:)
  next
    case False
    with work_runs_single_le [of e s] have one: "work_runs [e] s = 1" by simp
    then have w: "work_runs (e # es) s = Suc (work_runs es (step e s))"
      by (simp add: work_runs_Cons [of e es s])
    from one have c: "seq_cnt (step e s) = seq_cnt s + 1"
      using cnt by simp
    from one have a: "attempted_seqs (step e s) = add_mset (seq_cnt s) (attempted_seqs s)"
      by (simp add: attempted_seqs_step [OF Cons.prems])
    have "attempted_seqs (exec (e # es) s) =
        add_mset (seq_cnt s) (attempted_seqs s)
          + mset (map (\<lambda>i. (seq_cnt s + 1) + of_nat i) [0..<work_runs es (step e s)])"
      using ih by (simp only: a c)
    also have "\<dots> = attempted_seqs s
          + mset (seq_cnt s # map (\<lambda>i. (seq_cnt s + 1) + of_nat i) [0..<work_runs es (step e s)])"
      by (simp only: mset.simps union_mset_add_mset_left union_mset_add_mset_right)
    also have "\<dots> = attempted_seqs s
          + mset (map (\<lambda>i. seq_cnt s + of_nat i) [0..<work_runs (e # es) s])"
      by (simp only: w seq_list_Suc)
    finally show ?thesis .
  qed
qed

lemma started_fresh:
  "seq_cnt started = 0" "msgs (counter_q started) = []" "log started = [Inf_starting]"
  by (simp_all add: started_def main_init_def boot_def LOG_def
      k_object_access_all_grant_def k_thread_create_user_def Let_def)

lemma full_run_attempts: "work_runs full_run started = 16"
  by code_simp

text \<open>
  Claim C10. A message carries the value the counter had before the increment. In the
  state the started system has reached after a run with \<open>n\<close> production attempts, the
  counter reads \<open>n\<close> and the next call of \<^verbatim>\<open>tick_work_handler\<close> leaves it at \<open>n + 1\<close>,
  having put the message numbered \<open>n\<close> at the end of the authorized channel or, when the
  channel is full, having logged the drop of number \<open>n\<close>. The first message enqueued is
  numbered 0. The numbers of all the messages that have entered the channel, together
  with those of the drop warnings, are exactly 0 to \<open>n - 1\<close>, each once. All numbers
  are taken modulo \<open>2^32\<close>.
\<close>

theorem seq_is_pre_increment_value:
  "tick_work_handler now (exec es started) =
     (if length (msgs (counter_q (exec es started))) < 16
      then (exec es started)\<lparr>seq_cnt := of_nat (work_runs es started + 1),
             counter_q := (counter_q (exec es started))\<lparr>msgs :=
               msgs (counter_q (exec es started)) @
                 [\<lparr> seq = of_nat (work_runs es started), ts_ms = now \<rparr>]\<rparr>\<rparr>
      else (exec es started)\<lparr>seq_cnt := of_nat (work_runs es started + 1),
             log := log (exec es started) @ [Wrn_dropped (of_nat (work_runs es started))]\<rparr>) \<and>
   msgs (counter_q (tick_work_handler now started)) = [\<lparr> seq = 0, ts_ms = now \<rparr>] \<and>
   seq_cnt (exec es started) = of_nat (work_runs es started) \<and>
   unat (seq_cnt (exec es started)) = work_runs es started mod 2 ^ 32 \<and>
   attempted_seqs (exec es started) = mset (map of_nat [0..<work_runs es started])"
proof -
  have inv: "sys_inv (exec es started)" by (rule sys_inv_reachable)
  have cnt: "seq_cnt (exec es started) = of_nat (work_runs es started)"
    using seq_cnt_exec [of es started] by (simp add: started_fresh)
  have rd: "unat (seq_cnt (exec es started)) = work_runs es started mod 2 ^ 32"
    by (simp add: cnt unat_of_nat)
  have hd: "tick_work_handler now (exec es started) =
     (if length (msgs (counter_q (exec es started))) < 16
      then (exec es started)\<lparr>seq_cnt := of_nat (work_runs es started + 1),
             counter_q := (counter_q (exec es started))\<lparr>msgs :=
               msgs (counter_q (exec es started)) @
                 [\<lparr> seq = of_nat (work_runs es started), ts_ms = now \<rparr>]\<rparr>\<rparr>
      else (exec es started)\<lparr>seq_cnt := of_nat (work_runs es started + 1),
             log := log (exec es started) @ [Wrn_dropped (of_nat (work_runs es started))]\<rparr>)"
    using inv by (simp add: sys_inv_def tick_supervisor tick_msg_def cnt)
  have first: "msgs (counter_q (tick_work_handler now started)) = [\<lparr> seq = 0, ts_ms = now \<rparr>]"
    using sys_inv_started by (simp add: sys_inv_def tick_supervisor tick_msg_def started_fresh)
  have "attempted_seqs started = {#}"
    by (simp add: attempted_seqs_def chan_trace_def started_fresh)
  then have all: "attempted_seqs (exec es started) = mset (map of_nat [0..<work_runs es started])"
    using attempted_seqs_exec [OF sys_inv_started, of es] by (simp add: started_fresh)
  from hd first cnt rd all show ?thesis by blast
qed

theorem seq_is_pre_increment_value_witness:
  "work_runs full_run started = 16 \<and>
   tick_work_handler 8 (exec full_run started) =
     (exec full_run started)\<lparr>seq_cnt := 17,
        log := log (exec full_run started) @ [Wrn_dropped 16]\<rparr> \<and>
   msgs (counter_q (tick_work_handler 8 started)) = [\<lparr> seq = 0, ts_ms = 8 \<rparr>] \<and>
   attempted_seqs (exec full_run started) = mset (map of_nat [0..<16])"
proof -
  note t = seq_is_pre_increment_value [of 8 full_run]
  have h: "tick_work_handler 8 (exec full_run started) =
     (exec full_run started)\<lparr>seq_cnt := 17,
        log := log (exec full_run started) @ [Wrn_dropped 16]\<rparr>"
    using t [THEN conjunct1] by (simp add: full_run_length full_run_attempts)
  have f: "msgs (counter_q (tick_work_handler 8 started)) = [\<lparr> seq = 0, ts_ms = 8 \<rparr>]"
    using t [THEN conjunct2, THEN conjunct1] .
  have m: "attempted_seqs (exec full_run started) = mset (map of_nat [0..<16])"
    using t [THEN conjunct2, THEN conjunct2, THEN conjunct2, THEN conjunct2]
    by (simp only: full_run_attempts)
  from full_run_attempts h f m show ?thesis by (intro conjI)
qed

section \<open>Setting the period\<close>

lemma digits_value_acc:
  "digits_value acc cs = acc * 10 ^ length cs + decimal_value cs"
  by (induction cs arbitrary: acc) (simp_all add: algebra_simps)

lemma takeWhile_all: "list_all P xs \<Longrightarrow> takeWhile P xs = xs"
  by (induction xs) simp_all

lemma dropWhile_all: "list_all P xs \<Longrightarrow> dropWhile P xs = []"
  by (induction xs) simp_all

lemma dropWhile_nil_all: "dropWhile P xs = [] \<Longrightarrow> list_all P xs"
  by (induction xs) (simp_all split: if_splits)

lemma digit_not_space: "isdigit c \<Longrightarrow> \<not> isspace c"
  by (auto simp add: isdigit_def isspace_def)

lemma digit_not_sign: "isdigit c \<Longrightarrow> c \<noteq> CHR ''-'' \<and> c \<noteq> CHR ''+''"
  by (auto simp add: isdigit_def)

lemma sign_not_space: "\<not> isspace CHR ''-''" "\<not> isspace CHR ''+''"
  by (simp_all add: isspace_def)

lemma strtol_unsigned:
  assumes "unsigned_decimal cs"
  shows "strtol cs = (clamp_long (decimal_value cs), [])"
proof -
  from assms obtain c r where cs: "cs = c # r" and c: "isdigit c" and all: "list_all isdigit cs"
    by (cases cs) (auto simp add: unsigned_decimal_def)
  from c have ns: "\<not> isspace c" by (rule digit_not_space)
  from c have sg: "c \<noteq> CHR ''-''" "c \<noteq> CHR ''+''" using digit_not_sign by blast+
  have d: "dropWhile isspace cs = cs" using cs ns by simp
  have st: "strip_sign cs = (False, cs)" using cs sg by (simp add: strip_sign_def)
  have tk: "takeWhile isdigit cs = cs" using all by (rule takeWhile_all)
  have dr: "dropWhile isdigit cs = []" using all by (rule dropWhile_all)
  have ne: "cs \<noteq> []" using cs by simp
  show ?thesis
    unfolding strtol_def d st by (simp add: tk dr ne digits_value_acc Let_def)
qed

lemma strtol_signed:
  assumes "unsigned_decimal cs"
  shows "strtol (CHR ''-'' # cs) = (clamp_long (- decimal_value cs), [])"
    and "strtol (CHR ''+'' # cs) = (clamp_long (decimal_value cs), [])"
proof -
  from assms have ne: "cs \<noteq> []" and all: "list_all isdigit cs"
    by (simp_all add: unsigned_decimal_def)
  have tk: "takeWhile isdigit cs = cs" using all by (rule takeWhile_all)
  have dr: "dropWhile isdigit cs = []" using all by (rule dropWhile_all)
  show "strtol (CHR ''-'' # cs) = (clamp_long (- decimal_value cs), [])"
    by (simp add: tk dr ne strtol_def strip_sign_def sign_not_space digits_value_acc Let_def)
  show "strtol (CHR ''+'' # cs) = (clamp_long (decimal_value cs), [])"
    by (simp add: tk dr ne strtol_def strip_sign_def sign_not_space digits_value_acc Let_def)
qed

text \<open>Leading white space changes the value and the rest only when a conversion is made.\<close>

lemma strtol_space:
  assumes "isspace c" and "strtol cs = (v, [])" and "cs \<noteq> []"
  shows "strtol (c # cs) = (v, [])"
  using assms by (auto simp add: strtol_def Let_def split: prod.splits if_splits)

lemma well_formed_nonempty: "well_formed_integer a \<Longrightarrow> a \<noteq> []"
  by (cases a) simp_all

lemma strtol_well_formed:
  "well_formed_integer a \<Longrightarrow> strtol a = (clamp_long (integer_value a), [])"
proof (induction a)
  case Nil
  then show ?case by simp
next
  case (Cons c cs)
  show ?case
  proof (cases "isspace c")
    case True
    with Cons.prems have wf: "well_formed_integer cs" by simp
    then have "strtol cs = (clamp_long (integer_value cs), [])" by (rule Cons.IH)
    with True well_formed_nonempty [OF wf] show ?thesis
      by (simp add: strtol_space)
  next
    case False
    with Cons.prems show ?thesis
      by (auto simp add: strtol_signed strtol_unsigned split: if_splits)
  qed
qed

lemma strtol_complete:
  "a \<noteq> [] \<Longrightarrow> snd (strtol a) = [] \<Longrightarrow> well_formed_integer a"
proof (induction a)
  case Nil
  then show ?case by simp
next
  case (Cons c cs)
  show ?case
  proof (cases "isspace c")
    case True
    from Cons.prems(2) True have "cs \<noteq> [] \<and> snd (strtol cs) = []"
      by (auto simp add: strtol_def Let_def strip_sign_def split: prod.splits if_splits)
    with Cons.IH True show ?thesis by simp
  next
    case False
    with Cons.prems(2) show ?thesis
      by (auto simp add: strtol_def Let_def strip_sign_def unsigned_decimal_def list_all_iff
          dest: dropWhile_nil_all split: prod.splits if_splits)
  qed
qed

lemma digit_char_props:
  assumes "d < 10"
  shows "isdigit (digit_char d)" and "digit_val (digit_char d) = int d"
  using assms by (simp_all add: digit_char_def isdigit_def digit_val_def)

lemma decimal_value_snoc:
  "decimal_value (cs @ [c]) = decimal_value cs * 10 + digit_val c"
  by (induction cs) (simp_all add: algebra_simps)

lemma decimal_digits: "unsigned_decimal (decimal n) \<and> decimal_value (decimal n) = int n"
proof (induction n rule: decimal.induct)
  case (1 n)
  show ?case
  proof (cases "n < 10")
    case True
    then show ?thesis
      by (simp add: decimal.simps [of n] unsigned_decimal_def digit_char_props)
  next
    case False
    with 1 have ih: "unsigned_decimal (decimal (n div 10))"
      "decimal_value (decimal (n div 10)) = int (n div 10)" by simp_all
    have m: "n mod 10 < 10" by simp
    from False ih digit_char_props [OF m] show ?thesis
      by (simp add: decimal.simps [of n] unsigned_decimal_def decimal_value_snoc
          zdiv_int zmod_int)
  qed
qed

lemma hd_decimal_digit: "decimal n = c # cs \<Longrightarrow> isdigit c"
  using decimal_digits [of n] by (simp add: unsigned_decimal_def)

lemma int_to_string_well_formed:
  "well_formed_integer (int_to_string v) \<and> integer_value (int_to_string v) = v"
proof (cases "v < 0")
  case True
  with decimal_digits [of "nat (- v)"] show ?thesis
    by (simp add: int_to_string_def sign_not_space)
next
  case False
  obtain c cs where d: "decimal (nat v) = c # cs"
    using decimal_digits [of "nat v"] by (cases "decimal (nat v)") (simp_all add: unsigned_decimal_def)
  then have c: "isdigit c" by (rule hd_decimal_digit)
  from False d c decimal_digits [of "nat v"] digit_not_space [OF c] digit_not_sign [OF c]
  show ?thesis
    by (simp add: int_to_string_def)
qed

lemma clamp_long_range: "10 \<le> v \<Longrightarrow> v \<le> 10000 \<Longrightarrow> clamp_long v = v"
  by (simp add: clamp_long_def LONG_MIN_def LONG_MAX_def)

lemma clamp_long_low: "v < 10 \<Longrightarrow> clamp_long v < 10"
  by (simp add: clamp_long_def LONG_MIN_def LONG_MAX_def)

lemma clamp_long_high: "10000 < v \<Longrightarrow> 10000 < clamp_long v"
  by (simp add: clamp_long_def LONG_MIN_def LONG_MAX_def)

lemma set_accepts:
  assumes "well_formed_integer a" and "10 \<le> integer_value a" and "integer_value a \<le> 10000"
  shows "cmd_counter_set [c, a] s =
    (0, s\<lparr>period_ms := word_of_int (integer_value a),
           tick_timer := k_timer_start (word_of_int (integer_value a))
              (word_of_int (integer_value a)) (k_timer_stop (tick_timer s)),
           shell_out := shell_out s @ [Print_period_set (word_of_int (integer_value a))]\<rparr>)"
  using assms well_formed_nonempty [OF assms(1)]
  by (simp add: cmd_counter_set_def strtol_well_formed clamp_long_range shell_print_def Let_def)

lemma set_rejects:
  assumes "\<not> (well_formed_integer a \<and> 10 \<le> integer_value a \<and> integer_value a \<le> 10000)"
  shows "cmd_counter_set [c, a] s = (- EINVAL, shell_print Error_invalid s)"
proof (cases "well_formed_integer a")
  case True
  with assms have "integer_value a < 10 \<or> 10000 < integer_value a" by auto
  then have "clamp_long (integer_value a) < 10 \<or> 10000 < clamp_long (integer_value a)"
    using clamp_long_low clamp_long_high by blast
  with True show ?thesis
    by (auto simp add: cmd_counter_set_def strtol_well_formed Let_def)
next
  case False
  then have "a = [] \<or> snd (strtol a) \<noteq> []"
    using strtol_complete by blast
  then show ?thesis
    by (auto simp add: cmd_counter_set_def Let_def split: prod.splits)
qed

text \<open>
  Claim C4. For every integer \<open>v\<close> from 10 to 10000, \<^verbatim>\<open>set\<close> with the decimal numeral of
  \<open>v\<close> returns 0, stores \<open>v\<close> as the period and restarts the timer with it, and a \<^verbatim>\<open>get\<close>
  after it returns 0 and prints period \<open>v\<close>.
\<close>

theorem set_then_get_reports_period:
  assumes "10 \<le> v" and "v \<le> 10000"
  shows "fst (cmd_counter_set [c, int_to_string v] s) = 0 \<and>
         uint (period_ms (snd (cmd_counter_set [c, int_to_string v] s))) = v \<and>
         running (tick_timer (snd (cmd_counter_set [c, int_to_string v] s))) \<and>
         uint (timer_period_ms (tick_timer (snd (cmd_counter_set [c, int_to_string v] s)))) = v \<and>
         fst (cmd_counter_get unused (snd (cmd_counter_set [c, int_to_string v] s))) = 0 \<and>
         last (shell_out (snd (cmd_counter_get unused (snd (cmd_counter_set [c, int_to_string v] s)))))
           = Print_status (word_of_int v) (ucast (seq_cnt s)) unused"
proof -
  have wf: "well_formed_integer (int_to_string v)" and iv: "integer_value (int_to_string v) = v"
    using int_to_string_well_formed by blast+
  have u: "uint (word_of_int v :: u32) = v"
    using assms by (simp add: uint_word_of_int take_bit_int_eq_self)
  from set_accepts [OF wf, of c s] assms iv u show ?thesis
    by (simp add: cmd_counter_get_def shell_print_def k_timer_start_def k_timer_stop_def)
qed

theorem set_then_get_reports_period_witness:
  "(10::int) \<le> 250 \<and> (250::int) \<le> 10000 \<and> int_to_string 250 = ''250'' \<and>
   fst (cmd_counter_set [''set'', ''250''] started) = 0 \<and>
   uint (period_ms (snd (cmd_counter_set [''set'', ''250''] started))) = 250 \<and>
   last (shell_out (snd (cmd_counter_get 1024 (snd (cmd_counter_set [''set'', ''250''] started)))))
           = Print_status 250 (ucast (seq_cnt started)) 1024"
proof -
  have r: "int_to_string 250 = ''250''" by code_simp
  have h: "(10::int) \<le> 250" "(250::int) \<le> 10000" by simp_all
  from set_then_get_reports_period [OF h, of "''set''" started 1024] r h show ?thesis
    by simp
qed

text \<open>
  Claim C5. When the argument of \<^verbatim>\<open>set\<close> is not a well-formed integer, or denotes an
  integer below 10 or above 10000, the handler returns \<open>-EINVAL\<close> after printing the error
  to the shell of the caller; nothing else changes (the period and the timer are as
  before), and a \<^verbatim>\<open>get\<close> after it prints the period that was configured before.
\<close>

theorem invalid_set_is_rejected:
  assumes "\<not> well_formed_integer a \<or> integer_value a < 10 \<or> 10000 < integer_value a"
  shows "cmd_counter_set [c, a] s = (- EINVAL, shell_print Error_invalid s) \<and>
         period_ms (snd (cmd_counter_set [c, a] s)) = period_ms s \<and>
         tick_timer (snd (cmd_counter_set [c, a] s)) = tick_timer s \<and>
         snd (cmd_counter_set [c, a] s) = s\<lparr>shell_out := shell_out s @ [Error_invalid]\<rparr> \<and>
         cmd_counter_get unused (snd (cmd_counter_set [c, a] s)) =
           (0, shell_print (Print_status (period_ms s) (ucast (seq_cnt s)) unused)
                 (snd (cmd_counter_set [c, a] s)))"
proof -
  from assms have "\<not> (well_formed_integer a \<and> 10 \<le> integer_value a \<and> integer_value a \<le> 10000)"
    by auto
  then have "cmd_counter_set [c, a] s = (- EINVAL, shell_print Error_invalid s)"
    by (rule set_rejects)
  then show ?thesis
    by (simp add: shell_print_def cmd_counter_get_def)
qed

theorem invalid_set_is_rejected_witness:
  "integer_value ''5'' < 10 \<and>
   cmd_counter_set [''set'', ''5''] started = (- EINVAL, shell_print Error_invalid started) \<and>
   period_ms (snd (cmd_counter_set [''set'', ''5''] started)) = period_ms started"
proof -
  have h: "integer_value ''5'' < 10" by code_simp
  then have "\<not> well_formed_integer ''5'' \<or> integer_value ''5'' < 10 \<or> 10000 < integer_value ''5''"
    by blast
  from invalid_set_is_rejected [OF this, of "''set''" started 0] h show ?thesis
    by blast
qed

end
